theory Spec2Isabelle
  imports Complex_Main "HOL-Library.Multiset" "HOL-Library.Sublist" "HOL-Library.Log_Nat"
begin

section \<open>Data model of \<open>main.cpp\<close>\<close>

text \<open>
  \<open>struct pnode { char ch; float p; }\<close>.  The weight type is left abstract: any
  linearly ordered type with a binary addition.  No law of the addition is assumed
  in the structural results, so they hold for the rounded arithmetic of \<open>float\<close>
  (the type \<open>float32\<close> below) as well as for exact arithmetic.
\<close>

datatype 'w pnode = Pnode (ch: char) (p: 'w)

text \<open>
  \<open>struct treenode : pnode { char lcode, rcode; treenode *left, *right; }\<close>.
  \<open>EncHuffman\<close> allocates two kinds of node: leaves, with both children \<open>NULL\<close> and
  \<open>ch\<close>, \<open>p\<close> copied from the table, and merged nodes, with both children set and
  \<open>p\<close>, \<open>lcode\<close>, \<open>rcode\<close> written (their \<open>ch\<close> is never written nor read).
  Every node is owned by exactly one parent, so the pointer graph is a tree.
\<close>

datatype 'w treenode =
    Leaf "'w pnode"
  | Inner 'w (lcode: char) (rcode: char) (left: "'w treenode") (right: "'w treenode")

fun node_p :: "'w treenode \<Rightarrow> 'w" where
  "node_p (Leaf e) = p e"
| "node_p (Inner w lc rc l r) = w"

text \<open>
  The source has no error path of its own.  \<open>UndefinedBehaviour\<close> stands for the
  read \<open>tops[0]\<close> of an empty vector; the other two values are the error kinds that
  the specification names for the encoder and the decoder.
\<close>

datatype error = UndefinedBehaviour | UnknownSymbol | TruncatedStream

section \<open>\<open>std::map<char, T>\<close>\<close>

text \<open>
  A \<open>std::map\<close> keeps its entries in increasing key order and iterates in that order;
  \<open>Coder::Decode\<close> depends on it.  It is modelled by the list of its entries in
  iteration order.  \<open>char\<close> is compared as the signed type it is on the usual x86
  targets: bytes 128..255 are negative and come first.
\<close>

type_synonym 'v cmap = "(char \<times> 'v) list"

definition signed_char :: "char \<Rightarrow> int" where
  "signed_char c = (if (of_char c :: int) < 128 then of_char c else of_char c - 256)"

text \<open>\<open>m[k] = v\<close>: replace the value of an existing key, or insert the entry in order.\<close>

fun cmap_set :: "char \<Rightarrow> 'v \<Rightarrow> 'v cmap \<Rightarrow> 'v cmap" where
  "cmap_set k v [] = [(k, v)]"
| "cmap_set k v ((k', v') # m) =
     (if k = k' then (k, v) # m
      else if signed_char k < signed_char k' then (k, v) # (k', v') # m
      else (k', v') # cmap_set k v m)"

section \<open>Building the table of probabilities (\<open>Coder::Encode\<close>, first half)\<close>

text \<open>The reading loop \<open>freqs[ch]++\<close>; a missing key starts at 0.\<close>

fun count_chars :: "string \<Rightarrow> int cmap \<Rightarrow> int cmap" where
  "count_chars [] freqs = freqs"
| "count_chars (c # cs) freqs =
     count_chars cs (cmap_set c ((case map_of freqs c of None \<Rightarrow> 0 | Some k \<Rightarrow> k) + 1) freqs)"

text \<open>
  The loop that fills \<open>ptable\<close> in map order; \<open>fdiv k total\<close> stands for
  \<open>float(k) / float(total)\<close>.  The \<open>int\<close> counts and the \<open>unsigned\<close> total are not
  bounded here: inputs of \<open>2^31\<close> bytes or more, where they would overflow, are
  outside the model.
\<close>

definition build_ptable :: "(int \<Rightarrow> nat \<Rightarrow> 'w) \<Rightarrow> string \<Rightarrow> 'w pnode list" where
  "build_ptable fdiv b =
     (let freqs = count_chars b []; total = length b
      in map (\<lambda>(c, k). Pnode c (fdiv k total)) freqs)"

definition pnode_compare :: "('w::linorder) pnode \<Rightarrow> 'w pnode \<Rightarrow> int" where
  "pnode_compare a b = (if p a < p b then 1 else if p a > p b then - 1 else 0)"

text \<open>
  \<open>qsort\<close> leaves the order of elements that compare equal unspecified, so it is
  modelled by its contract: the result is a rearrangement of the input in which no
  element compares greater than a later one.
\<close>

definition qsort_result :: "('w::linorder) pnode list \<Rightarrow> 'w pnode list \<Rightarrow> bool" where
  "qsort_result xs ys \<longleftrightarrow> mset ys = mset xs \<and> sorted_wrt (\<lambda>a b. pnode_compare a b \<le> 0) ys"

section \<open>\<open>Coder::EncHuffman\<close>\<close>

text \<open>The scan \<open>for (ti = tops.begin(); ...) if ((*ti)->p < n->p) { insert; break; }\<close>
  followed by \<open>if (!isins) tops.push_back(n)\<close>.\<close>

fun insert_top :: "('w::linorder) treenode \<Rightarrow> 'w treenode list \<Rightarrow> 'w treenode list" where
  "insert_top n [] = [n]"
| "insert_top n (t # ts) = (if node_p t < node_p n then n # t # ts else t # insert_top n ts)"

text \<open>The new node of one iteration, from \<open>tops[numtop-2]\<close> and \<open>tops[numtop-1]\<close>.\<close>

definition new_node :: "('w::{plus,linorder}) treenode \<Rightarrow> 'w treenode \<Rightarrow> 'w treenode" where
  "new_node l r =
     (if node_p l < node_p r
      then Inner (node_p l + node_p r) (CHR ''0'') (CHR ''1'') l r
      else Inner (node_p l + node_p r) (CHR ''1'') (CHR ''0'') l r)"

text \<open>
  One iteration of \<open>while (numtop > 1)\<close>; here \<open>numtop = length tops\<close> throughout.
  The loop applies it under its guard only, where both indices are in range.
\<close>

definition merge_step :: "('w::{plus,linorder}) treenode list \<Rightarrow> 'w treenode list" where
  "merge_step tops =
     (let numtop = length tops;
          n = new_node (tops ! (numtop - 2)) (tops ! (numtop - 1))
      in insert_top n (take (numtop - 2) tops))"

lemma length_insert_top [simp]: "length (insert_top n ts) = Suc (length ts)"
  by (induction ts) auto

lemma length_merge_step: "1 < length tops \<Longrightarrow> length (merge_step tops) = length tops - 1"
  by (simp add: merge_step_def Let_def)

function build_tree :: "('w::{plus,linorder}) treenode list \<Rightarrow> 'w treenode list" where
  "build_tree tops = (if 1 < length tops then build_tree (merge_step tops) else tops)"
  by pat_completeness auto
termination
  by (relation "measure length") (auto simp: length_merge_step)

declare build_tree.simps [simp del]

text \<open>The states of \<open>tops\<close> at the loop head, in order, the last one being the final state.\<close>

function tops_trace :: "('w::{plus,linorder}) treenode list \<Rightarrow> 'w treenode list list" where
  "tops_trace tops = (if 1 < length tops then tops # tops_trace (merge_step tops) else [tops])"
  by pat_completeness auto
termination
  by (relation "measure length") (auto simp: length_merge_step)

declare tops_trace.simps [simp del]

section \<open>\<open>Coder::GenerateCode\<close>\<close>

text \<open>
  The state is the function-local \<open>static string sequence\<close> and the member \<open>codes\<close>.
  The last two lines drop the last character of \<open>sequence\<close>, or clear it.
\<close>

definition pop_sequence :: "string \<Rightarrow> string" where
  "pop_sequence s = (let l = length s in if 1 < l then take (l - 1) s else [])"

fun GenerateCode :: "'w treenode \<Rightarrow> string \<times> string cmap \<Rightarrow> string \<times> string cmap" where
  "GenerateCode (Leaf e) (sequence, codes) = (pop_sequence sequence, cmap_set (ch e) sequence codes)"
| "GenerateCode (Inner w lc rc l r) (sequence, codes) =
     (let (s1, codes1) = GenerateCode l (sequence @ [lc], codes);
          (s2, codes2) = GenerateCode r (s1 @ [rc], codes1)
      in (pop_sequence s2, codes2))"

text \<open>
  \<open>EncHuffman\<close> on the member \<open>ptable\<close> (already sorted), with \<open>codes\<close> empty and
  \<open>sequence\<close> at its initial value, as in the single call that \<open>main\<close> makes.
\<close>

definition EncHuffman :: "('w::{plus,linorder}) pnode list \<Rightarrow> error + string cmap" where
  "EncHuffman ptable =
     (case build_tree (map Leaf ptable) of
        [] \<Rightarrow> Inl UndefinedBehaviour
      | root_node # rest \<Rightarrow> Inr (snd (GenerateCode root_node ([], []))))"

section \<open>Writing the encoded text (\<open>Coder::Encode\<close>, second half)\<close>

text \<open>
  The loop \<open>fprintf(outputFile, "%s", codes[ch].c_str())\<close> over the input, read a
  second time.  \<open>operator[]\<close> on a missing key inserts the empty string and returns it.
\<close>

fun output_text :: "string cmap \<Rightarrow> string \<Rightarrow> string" where
  "output_text codes [] = []"
| "output_text codes (c # cs) =
     (case map_of codes c of
        None \<Rightarrow> output_text (cmap_set c [] codes) cs
      | Some code \<Rightarrow> code @ output_text codes cs)"

text \<open>
  \<open>Encode\<close> after \<open>qsort\<close>: the code table of \<open>EncHuffman\<close> and the encoded text.
  The table and the text go to the output file; reading them back is the file layer
  and is not modelled, the decoder below receives them as they are.
\<close>

definition Encode :: "('w::{plus,linorder}) pnode list \<Rightarrow> string \<Rightarrow> error + string cmap \<times> string" where
  "Encode ptable b =
     (case EncHuffman ptable of
        Inl e \<Rightarrow> Inl e
      | Inr codes \<Rightarrow> Inr (codes, output_text codes b))"

section \<open>\<open>Coder::Decode\<close>\<close>

text \<open>\<open>strcmp\<close> compares up to the first NUL character of each argument.\<close>

definition c_str :: "string \<Rightarrow> string" where
  "c_str s = takeWhile (\<lambda>c. c \<noteq> CHR 0x00) s"

text \<open>
  The inner loop over the entries of \<open>codes\<close> in map order, on the state \<open>accum\<close> and the output
  written so far.  There is no \<open>break\<close>: after a match the scan goes on with the
  emptied \<open>accum\<close>.
\<close>

fun scan_codes :: "string cmap \<Rightarrow> string \<times> string \<Rightarrow> string \<times> string" where
  "scan_codes [] (accum, out) = (accum, out)"
| "scan_codes ((k, code) # rest) (accum, out) =
     (if c_str code = c_str accum
      then scan_codes rest ([], out @ [k])
      else scan_codes rest (accum, out))"

text \<open>
  The loop \<open>while ((ch = fgetc(inputFile)) != EOF)\<close>.  \<open>ch\<close> is a (signed) \<open>char\<close>, so
  the byte 255 compares equal to \<open>EOF\<close> and ends the loop like the end of the file.
\<close>

fun decode_loop :: "string cmap \<Rightarrow> string \<Rightarrow> string \<times> string \<Rightarrow> string \<times> string" where
  "decode_loop codes [] (accum, out) = (accum, out)"
| "decode_loop codes (c # cs) (accum, out) =
     (if c = CHR 0xFF then (accum, out)
      else decode_loop codes cs (scan_codes codes (accum @ [c], out)))"

text \<open>The decoder returns what it has written; whatever is left in \<open>accum\<close> is dropped.\<close>

definition Decode :: "string cmap \<Rightarrow> string \<Rightarrow> error + string" where
  "Decode codes stream = Inr (snd (decode_loop codes stream ([], [])))"

section \<open>Single-precision arithmetic\<close>

text \<open>
  The source computes the weights in \<open>float\<close>.  A \<open>float\<close> is modelled by the rational
  it denotes; \<open>to_float\<close> rounds a rational to the nearest value with a significand
  of 24 bits, ties to the even significand (IEEE 754 binary32 in its default
  rounding mode, each operation rounded once).  The exponent range is not
  modelled: the counts, the total, their quotients and the sums of those are far
  from overflow and underflow.
\<close>

definition pow2 :: "int \<Rightarrow> rat" where
  "pow2 e = (if 0 \<le> e then 2 ^ nat e else 1 / 2 ^ nat (- e))"

text \<open>For \<open>x > 0\<close>, the exponent \<open>e\<close> with \<open>2^e \<le> x < 2^(e+1)\<close>.\<close>

definition ilog2 :: "rat \<Rightarrow> int" where
  "ilog2 x = (let (n, d) = quotient_of x; e0 = bitlen n - bitlen d
              in if pow2 e0 \<le> x then e0 else e0 - 1)"

text \<open>The nearest integer, a tie going to the even one.\<close>

definition round_even :: "rat \<Rightarrow> int" where
  "round_even q = (let f = \<lfloor>q\<rfloor>; r = q - of_int f
                   in if r < 1 / 2 then f else if 1 / 2 < r then f + 1
                      else if even f then f else f + 1)"

definition to_float :: "rat \<Rightarrow> rat" where
  "to_float x = (if x = 0 then 0
                 else let e = ilog2 \<bar>x\<bar>; u = pow2 (e - 23)
                      in sgn x * of_int (round_even (\<bar>x\<bar> / u)) * u)"

datatype float32 = Float32 (val: rat)

instantiation float32 :: linorder
begin

definition less_eq_float32 :: "float32 \<Rightarrow> float32 \<Rightarrow> bool" where
  "x \<le> y \<longleftrightarrow> val x \<le> val y"

definition less_float32 :: "float32 \<Rightarrow> float32 \<Rightarrow> bool" where
  "x < y \<longleftrightarrow> val x < val y"

instance
proof
  fix x y z :: float32
  show "x < y \<longleftrightarrow> x \<le> y \<and> \<not> y \<le> x"
    unfolding less_eq_float32_def less_float32_def by (rule less_le_not_le)
  show "x \<le> x"
    unfolding less_eq_float32_def by (rule order_refl)
  show "x \<le> y \<Longrightarrow> y \<le> z \<Longrightarrow> x \<le> z"
    unfolding less_eq_float32_def by (rule order_trans)
  show "x \<le> y \<Longrightarrow> y \<le> x \<Longrightarrow> x = y"
    unfolding less_eq_float32_def by (cases x; cases y) simp
  show "x \<le> y \<or> y \<le> x"
    unfolding less_eq_float32_def by (rule linear)
qed

end

text \<open>\<open>n->p = tops[numtop-2]->p + tops[numtop-1]->p\<close> in \<open>float\<close>.\<close>

instantiation float32 :: plus
begin

definition plus_float32 :: "float32 \<Rightarrow> float32 \<Rightarrow> float32" where
  "x + y = Float32 (to_float (val x + val y))"

instance ..

end

text \<open>\<open>float(k) / ftot\<close> with \<open>ftot = float(total)\<close>: two conversions and a division.\<close>

definition float_div :: "int \<Rightarrow> nat \<Rightarrow> float32" where
  "float_div k n = Float32 (to_float (to_float (of_int k) / to_float (of_nat n)))"


section \<open>Notions used in the statements\<close>

text \<open>The working collection \<open>tops\<close> is in descending order of weight.\<close>

definition descending :: "('w::linorder) treenode list \<Rightarrow> bool" where
  "descending tops \<longleftrightarrow> sorted_wrt (\<lambda>a b. node_p b \<le> node_p a) tops"

text \<open>No codeword of the table is a prefix of the codeword of another symbol.\<close>

definition prefix_free :: "string cmap \<Rightarrow> bool" where
  "prefix_free codes \<longleftrightarrow>
     (\<forall>(c1, w1) \<in> set codes. \<forall>(c2, w2) \<in> set codes. c1 \<noteq> c2 \<longrightarrow> \<not> prefix w1 w2)"

text \<open>A string of the characters \<open>0\<close> and \<open>1\<close>.\<close>

definition bits :: "string \<Rightarrow> bool" where
  "bits w \<longleftrightarrow> set w \<subseteq> {CHR ''0'', CHR ''1''}"


section \<open>The ordered working collection\<close>

lemma set_insert_top [simp]: "set (insert_top n ts) = insert n (set ts)"
  by (induction ts) auto

lemma mset_insert_top [simp]: "mset (insert_top n ts) = add_mset n (mset ts)"
  by (induction ts) auto

lemma insert_top_position:
  "insert_top n ts =
     takeWhile (\<lambda>t. \<not> node_p t < node_p n) ts @ n # dropWhile (\<lambda>t. \<not> node_p t < node_p n) ts"
  by (induction ts) auto

lemma descending_insert_top: "descending ts \<Longrightarrow> descending (insert_top n ts)"
  unfolding descending_def by (induction ts) auto

lemma descending_take: "descending ts \<Longrightarrow> descending (take k ts)"
  unfolding descending_def by (rule sorted_wrt_take)

lemma descending_merge_step: "descending tops \<Longrightarrow> descending (merge_step tops)"
  by (simp add: merge_step_def Let_def descending_insert_top descending_take)

lemma descending_nth: "descending ts \<Longrightarrow> i \<le> j \<Longrightarrow> j < length ts \<Longrightarrow> node_p (ts ! j) \<le> node_p (ts ! i)"
  unfolding descending_def
  by (cases "i = j") (auto simp: sorted_wrt_iff_nth_less)

lemma descending_last_two:
  assumes "descending tops" and "1 < length tops"
  shows "node_p (tops ! (length tops - 1)) \<le> node_p (tops ! (length tops - 2))"
    and "\<forall>t \<in> set (take (length tops - 2) tops). node_p (tops ! (length tops - 2)) \<le> node_p t"
proof -
  show "node_p (tops ! (length tops - 1)) \<le> node_p (tops ! (length tops - 2))"
    using assms by (intro descending_nth) auto
  show "\<forall>t \<in> set (take (length tops - 2) tops). node_p (tops ! (length tops - 2)) \<le> node_p t"
  proof
    fix t assume "t \<in> set (take (length tops - 2) tops)"
    then obtain i where i: "i < length tops - 2" "t = tops ! i"
      by (auto simp: in_set_conv_nth)
    then show "node_p (tops ! (length tops - 2)) \<le> node_p t"
      using assms by (auto intro!: descending_nth)
  qed
qed

lemma node_p_new_node [simp]: "node_p (new_node l r) = node_p l + node_p r"
  by (simp add: new_node_def)

lemma tops_trace_descending:
  "descending tops \<Longrightarrow> T \<in> set (tops_trace tops) \<Longrightarrow> descending T"
proof (induction tops rule: tops_trace.induct)
  case (1 tops)
  show ?case
  proof (cases "1 < length tops")
    case True
    with 1 show ?thesis
      by (subst (asm) (2) tops_trace.simps) (auto simp: descending_merge_step)
  next
    case False
    with 1 show ?thesis
      by (subst (asm) (2) tops_trace.simps) auto
  qed
qed

lemma last_tops_trace: "last (tops_trace tops) = build_tree tops"
proof (induction tops rule: tops_trace.induct)
  case (1 tops)
  show ?case
  proof (cases "1 < length tops")
    case True
    have "tops_trace (merge_step tops) \<noteq> []"
      by (subst tops_trace.simps) simp
    with True 1 show ?thesis
      by (subst tops_trace.simps, subst build_tree.simps) simp
  next
    case False
    then show ?thesis
      by (subst tops_trace.simps, subst build_tree.simps) simp
  qed
qed

lemma qsort_result_descending:
  "qsort_result xs ptable \<Longrightarrow> descending (map Leaf ptable)"
  unfolding qsort_result_def descending_def pnode_compare_def
  by (auto simp: sorted_wrt_map not_less elim!: sorted_wrt_mono_rel[rotated] split: if_splits)

text \<open>
  C7.  Started on the table that \<open>qsort\<close> left, every state \<open>T\<close> that \<open>tops\<close> takes
  at the head of the merge loop is in descending order of weight.  When the loop
  runs once more from \<open>T\<close>, the two nodes it takes (the last two) weigh no more than
  any node left, the new node weighs their sum and lands right before the first
  remaining node that is strictly lighter (at the end when there is none), and
  the collection is in descending order again, one node shorter.
\<close>

theorem merge_loop_keeps_descending_order:
  assumes "qsort_result xs ptable" and "T \<in> set (tops_trace (map Leaf ptable))"
  shows "descending T \<and>
    (1 < length T \<longrightarrow>
      (let numtop = length T; l = T ! (numtop - 2); r = T ! (numtop - 1);
           others = take (numtop - 2) T; n = new_node l r
       in node_p r \<le> node_p l \<and> (\<forall>t \<in> set others. node_p l \<le> node_p t) \<and>
          left n = l \<and> right n = r \<and> node_p n = node_p l + node_p r \<and>
          merge_step T =
            takeWhile (\<lambda>t. \<not> node_p t < node_p n) others @ n #
            dropWhile (\<lambda>t. \<not> node_p t < node_p n) others \<and>
          descending (merge_step T) \<and> length (merge_step T) = length T - 1))"
proof -
  have d: "descending T"
    using assms by (blast intro: tops_trace_descending qsort_result_descending)
  have "left (new_node l r) = l \<and> right (new_node l r) = r" for l r :: "'a treenode"
    by (simp add: new_node_def)
  with d show ?thesis
    using descending_last_two[OF d] descending_merge_step[OF d] length_merge_step[of T]
    by (simp add: Let_def merge_step_def insert_top_position)
qed

theorem merge_loop_keeps_descending_order_witness:
  "qsort_result
     [Pnode (CHR ''a'') (Float32 (1 / 2)), Pnode (CHR ''b'') (Float32 (1 / 4)), Pnode (CHR ''c'') (Float32 (1 / 8)), Pnode (CHR ''d'') (Float32 (1 / 8))]
     [Pnode (CHR ''a'') (Float32 (1 / 2)), Pnode (CHR ''b'') (Float32 (1 / 4)), Pnode (CHR ''d'') (Float32 (1 / 8)), Pnode (CHR ''c'') (Float32 (1 / 8))] \<and>
   [Leaf (Pnode (CHR ''a'') (Float32 (1 / 2))), Leaf (Pnode (CHR ''b'') (Float32 (1 / 4))),
    Inner (Float32 (1 / 4)) (CHR ''1'') (CHR ''0'') (Leaf (Pnode (CHR ''d'') (Float32 (1 / 8)))) (Leaf (Pnode (CHR ''c'') (Float32 (1 / 8))))]
     \<in> set (tops_trace (map Leaf
          [Pnode (CHR ''a'') (Float32 (1 / 2)), Pnode (CHR ''b'') (Float32 (1 / 4)), Pnode (CHR ''d'') (Float32 (1 / 8)), Pnode (CHR ''c'') (Float32 (1 / 8))])) \<and>
   descending
     [Leaf (Pnode (CHR ''a'') (Float32 (1 / 2))), Leaf (Pnode (CHR ''b'') (Float32 (1 / 4))),
      Inner (Float32 (1 / 4)) (CHR ''1'') (CHR ''0'') (Leaf (Pnode (CHR ''d'') (Float32 (1 / 8)))) (Leaf (Pnode (CHR ''c'') (Float32 (1 / 8))))] \<and>
   descending (merge_step
     [Leaf (Pnode (CHR ''a'') (Float32 (1 / 2))), Leaf (Pnode (CHR ''b'') (Float32 (1 / 4))),
      Inner (Float32 (1 / 4)) (CHR ''1'') (CHR ''0'') (Leaf (Pnode (CHR ''d'') (Float32 (1 / 8)))) (Leaf (Pnode (CHR ''c'') (Float32 (1 / 8))))])"
proof -
  let ?xs = "[Pnode (CHR ''a'') (Float32 (1 / 2)), Pnode (CHR ''b'') (Float32 (1 / 4)), Pnode (CHR ''c'') (Float32 (1 / 8)), Pnode (CHR ''d'') (Float32 (1 / 8))]"
  let ?pt = "[Pnode (CHR ''a'') (Float32 (1 / 2)), Pnode (CHR ''b'') (Float32 (1 / 4)), Pnode (CHR ''d'') (Float32 (1 / 8)), Pnode (CHR ''c'') (Float32 (1 / 8))]"
  let ?T = "[Leaf (Pnode (CHR ''a'') (Float32 (1 / 2))), Leaf (Pnode (CHR ''b'') (Float32 (1 / 4))),
      Inner (Float32 (1 / 4)) (CHR ''1'') (CHR ''0'') (Leaf (Pnode (CHR ''d'') (Float32 (1 / 8)))) (Leaf (Pnode (CHR ''c'') (Float32 (1 / 8))))]"
  have h1: "qsort_result ?xs ?pt"
    by code_simp
  have h2: "?T \<in> set (tops_trace (map Leaf ?pt))"
    by code_simp
  have h3: "1 < length ?T"
    by simp
  from merge_loop_keeps_descending_order [OF h1 h2] h3
  have "descending ?T \<and> descending (merge_step ?T)"
    unfolding Let_def by blast
  with h1 h2 show ?thesis
    by blast
qed



section \<open>Facts about the map model\<close>

definition cmap_ok :: "'v cmap \<Rightarrow> bool" where
  "cmap_ok m \<longleftrightarrow> sorted_wrt (\<lambda>a b. signed_char a < signed_char b) (map fst m)"

lemma signed_char_inj: "signed_char a = signed_char b \<Longrightarrow> a = b"
proof -
  assume eq: "signed_char a = signed_char b"
  have r: "0 \<le> (of_char c :: int) \<and> (of_char c :: int) < 256" for c
    by (simp add: of_char_def)
  from eq r[of a] r[of b] have "(of_char a :: int) = of_char b"
    by (auto simp: signed_char_def split: if_splits)
  then show "a = b" by simp
qed

lemma cmap_ok_distinct: "cmap_ok m \<Longrightarrow> distinct (map fst m)"
  unfolding cmap_ok_def by (induction m) auto

lemma keys_cmap_set [simp]: "fst ` set (cmap_set k v m) = insert k (fst ` set m)"
  by (induction k v m rule: cmap_set.induct) (simp_all add: insert_commute)

lemma map_of_cmap_set [simp]: "map_of (cmap_set k v m) = (map_of m)(k \<mapsto> v)"
  by (induction m) auto

lemma cmap_ok_set: "cmap_ok m \<Longrightarrow> cmap_ok (cmap_set k v m)"
proof (induction m)
  case Nil
  then show ?case by (simp add: cmap_ok_def)
next
  case (Cons e m)
  obtain k' v' where e: "e = (k', v')" by (cases e)
  from Cons.prems have tl: "cmap_ok m" and hd: "\<forall>x \<in> fst ` set m. signed_char k' < signed_char x"
    by (auto simp: cmap_ok_def e)
  have "signed_char k' < signed_char k" if "k \<noteq> k'" "\<not> signed_char k < signed_char k'"
    using that signed_char_inj[of k k'] by force
  with Cons.prems Cons.IH[OF tl] hd show ?case
    unfolding e cmap_ok_def by (auto simp: image_iff)
qed

lemma cmap_entries: "cmap_ok m \<Longrightarrow> (k, v) \<in> set m \<longleftrightarrow> map_of m k = Some v"
  by (simp add: cmap_ok_distinct)

section \<open>Facts about the table of probabilities\<close>

lemma cmap_ok_count_chars: "cmap_ok freqs \<Longrightarrow> cmap_ok (count_chars b freqs)"
  by (induction b arbitrary: freqs) (simp_all add: cmap_ok_set)

lemma keys_count_chars: "fst ` set (count_chars b freqs) = fst ` set freqs \<union> set b"
  by (induction b arbitrary: freqs) auto

lemma ch_build_ptable: "map ch (build_ptable fdiv b) = map fst (count_chars b [])"
  by (simp add: build_ptable_def Let_def case_prod_unfold)

lemma build_ptable_chars:
  "distinct (map ch (build_ptable fdiv b))" "set (map ch (build_ptable fdiv b)) = set b"
proof -
  have "cmap_ok (count_chars b [])"
    by (rule cmap_ok_count_chars) (simp add: cmap_ok_def)
  then show "distinct (map ch (build_ptable fdiv b))"
    unfolding ch_build_ptable by (rule cmap_ok_distinct)
  show "set (map ch (build_ptable fdiv b))= set b"
    unfolding ch_build_ptable using keys_count_chars[of b "[]"] by simp
qed

lemma qsort_result_chars:
  assumes "qsort_result (build_ptable fdiv b) ptable"
  shows "distinct (map ch ptable)" and "ch ` set ptable = set b" and "length ptable = card (set b)"
proof -
  have m: "mset (map ch ptable) = mset (map ch (build_ptable fdiv b))"
    using assms by (simp add: qsort_result_def)
  show d: "distinct (map ch ptable)"
    using build_ptable_chars(1)[of fdiv b] m by (metis mset_eq_imp_distinct_iff)
  show s: "ch ` set ptable = set b"
    using build_ptable_chars(2)[of fdiv b] m by (metis mset_eq_setD set_map)
  show "length ptable = card (set b)"
    using d s by (metis distinct_card length_map set_map)
qed

lemma qsort_result_nonempty:
  "qsort_result (build_ptable fdiv b) ptable \<Longrightarrow> ptable \<noteq> [] \<longleftrightarrow> b \<noteq> []"
  using qsort_result_chars(2)[of fdiv b ptable] by auto

section \<open>Facts about \<open>GenerateCode\<close>\<close>

lemma pop_sequence_butlast: "pop_sequence s = butlast s"
  by (cases s rule: rev_cases) (auto simp: pop_sequence_def Let_def butlast_conv_take)

text \<open>The leaves of a tree from left to right, and their label paths below a given path.\<close>

fun leaves :: "'w treenode \<Rightarrow> 'w pnode list" where
  "leaves (Leaf e) = [e]"
| "leaves (Inner w lc rc l r) = leaves l @ leaves r"

fun leaf_paths :: "'w treenode \<Rightarrow> string \<Rightarrow> (char \<times> string) list" where
  "leaf_paths (Leaf e) s = [(ch e, s)]"
| "leaf_paths (Inner w lc rc l r) s = leaf_paths l (s @ [lc]) @ leaf_paths r (s @ [rc])"

text \<open>Every merged node carries two different labels out of \<open>0\<close> and \<open>1\<close>.\<close>

fun labelled :: "'w treenode \<Rightarrow> bool" where
  "labelled (Leaf e) \<longleftrightarrow> True"
| "labelled (Inner w lc rc l r) \<longleftrightarrow>
     lc \<noteq> rc \<and> lc \<in> {CHR ''0'', CHR ''1''} \<and> rc \<in> {CHR ''0'', CHR ''1''} \<and> labelled l \<and> labelled r"

lemma GenerateCode_leaf_paths:
  "GenerateCode t (s, codes) = (butlast s, fold (\<lambda>(c, w). cmap_set c w) (leaf_paths t s) codes)"
  by (induction t arbitrary: s codes) (simp_all add: pop_sequence_butlast)

lemma cmap_ok_fold_set: "cmap_ok m \<Longrightarrow> cmap_ok (fold (\<lambda>(c, w). cmap_set c w) xs m)"
  by (induction xs arbitrary: m) (auto simp: cmap_ok_set)

lemma map_of_fold_set:
  "distinct (map fst xs) \<Longrightarrow> map_of (fold (\<lambda>(c, w). cmap_set c w) xs m) = map_of m ++ map_of xs"
proof (induction xs arbitrary: m)
  case Nil
  then show ?case by simp
next
  case (Cons x xs)
  obtain c w where x: "x = (c, w)" by (cases x)
  from Cons.prems have nin: "c \<notin> dom (map_of xs)" and d: "distinct (map fst xs)"
    by (simp_all add: x dom_map_of_conv_image_fst)
  have "map_of (fold (\<lambda>(c, w). cmap_set c w) (x # xs) m) = map_of (cmap_set c w m) ++ map_of xs"
    unfolding x by (simp add: Cons.IH[OF d] del: map_of_cmap_set)
  also have "\<dots> = (map_of m)(c \<mapsto> w) ++ map_of xs"
    by (simp only: map_of_cmap_set)
  also have "\<dots> = map_of m ++ map_of (x # xs)"
  proof (rule ext)
    fix a show "((map_of m)(c \<mapsto> w) ++ map_of xs) a = (map_of m ++ map_of (x # xs)) a"
      using nin unfolding x by (cases "map_of xs a") (auto simp: map_add_def domIff)
  qed
  finally show ?case .
qed

lemma set_fold_set:
  assumes "distinct (map fst xs)"
  shows "set (fold (\<lambda>(c, w). cmap_set c w) xs []) = set xs"
proof -
  let ?m = "fold (\<lambda>(c, w). cmap_set c w) xs []"
  have ok: "cmap_ok ?m"
    by (rule cmap_ok_fold_set) (simp add: cmap_ok_def)
  have "(k, v) \<in> set ?m \<longleftrightarrow> (k, v) \<in> set xs" for k v
    using cmap_entries[OF ok, of k v] map_of_fold_set[OF assms, of "[]"] assms
    by simp
  then show ?thesis by auto
qed

lemma fst_leaf_paths: "map fst (leaf_paths t s) = map ch (leaves t)"
  by (induction t arbitrary: s) auto

lemma leaves_nonempty [simp]: "leaves t \<noteq> []"
  by (induction t) auto

lemma leaf_paths_extend:
  "(c, w) \<in> set (leaf_paths t s) \<Longrightarrow> \<exists>u. w = s @ u \<and> length u < length (leaves t)"
proof (induction t arbitrary: s)
  case (Leaf e)
  then show ?case by simp
next
  case (Inner x lc rc l r)
  have pos: "0 < length (leaves l)" "0 < length (leaves r)" by simp_all
  from Inner.prems consider "(c, w) \<in> set (leaf_paths l (s @ [lc]))" | "(c, w) \<in> set (leaf_paths r (s @ [rc]))"
    by auto
  then show ?case
  proof cases
    case 1
    with Inner.IH(1)[of "s @ [lc]"] obtain u where u: "w = (s @ [lc]) @ u" "length u < length (leaves l)"
      by auto
    with pos(2) have "Suc (length u) < length (leaves l) + length (leaves r)"
      by linarith
    with u(1) show ?thesis by (intro exI[of _ "lc # u"]) simp
  next
    case 2
    with Inner.IH(2)[of "s @ [rc]"] obtain u where u: "w = (s @ [rc]) @ u" "length u < length (leaves r)"
      by auto
    with pos(1) have "Suc (length u) < length (leaves l) + length (leaves r)"
      by linarith
    with u(1) show ?thesis by (intro exI[of _ "rc # u"]) simp
  qed
qed

lemma leaf_paths_Inner_nonempty:
  "(c, w) \<in> set (leaf_paths (Inner x lc rc l r) s) \<Longrightarrow> \<exists>u. w = s @ u \<and> u \<noteq> []"
  by (auto dest!: leaf_paths_extend)

lemma leaf_paths_bits:
  "labelled t \<Longrightarrow> (c, w) \<in> set (leaf_paths t s) \<Longrightarrow> \<exists>u. w = s @ u \<and> set u \<subseteq> {CHR ''0'', CHR ''1''}"
proof (induction t arbitrary: s)
  case (Leaf e)
  then show ?case by simp
next
  case (Inner x lc rc l r)
  from Inner.prems(2) consider "(c, w) \<in> set (leaf_paths l (s @ [lc]))" | "(c, w) \<in> set (leaf_paths r (s @ [rc]))"
    by auto
  then show ?case
  proof cases
    case 1
    with Inner.IH(1)[of "s @ [lc]"] Inner.prems(1) obtain u where "w = (s @ [lc]) @ u" "set u \<subseteq> {CHR ''0'', CHR ''1''}"
      by auto
    with Inner.prems(1) show ?thesis by (intro exI[of _ "lc # u"]) auto
  next
    case 2
    with Inner.IH(2)[of "s @ [rc]"] Inner.prems(1) obtain u where "w = (s @ [rc]) @ u" "set u \<subseteq> {CHR ''0'', CHR ''1''}"
      by auto
    with Inner.prems(1) show ?thesis by (intro exI[of _ "rc # u"]) auto
  qed
qed

lemma leaf_paths_prefix_free:
  "labelled t \<Longrightarrow> distinct (map ch (leaves t)) \<Longrightarrow>
   (c1, w1) \<in> set (leaf_paths t s) \<Longrightarrow> (c2, w2) \<in> set (leaf_paths t s) \<Longrightarrow> c1 \<noteq> c2 \<Longrightarrow>
   \<not> prefix w1 w2"
proof (induction t arbitrary: s)
  case (Leaf e)
  then show ?case by simp
next
  case (Inner x lc rc l r)
  have cross: "\<not> prefix u v" if "(a, u) \<in> set (leaf_paths t1 (s @ [b1]))" "(a', v) \<in> set (leaf_paths t2 (s @ [b2]))" "b1 \<noteq> b2"
    for a a' u v b1 b2 and t1 t2 :: "'a treenode"
  proof -
    from that obtain u' v' where "u = (s @ [b1]) @ u'" "v = (s @ [b2]) @ v'"
      by (blast dest: leaf_paths_extend)
    with \<open>b1 \<noteq> b2\<close> show ?thesis by simp
  qed
  from Inner.prems have l: "labelled l" "distinct (map ch (leaves l))" and r: "labelled r" "distinct (map ch (leaves r))"
    and ne: "lc \<noteq> rc"
    by auto
  from Inner.prems(3,4) Inner.prems(5) show ?case
    using Inner.IH(1)[OF l, of "s @ [lc]"] Inner.IH(2)[OF r, of "s @ [rc]"] cross ne
    by auto
qed

section \<open>Facts about the merge loop\<close>

lemma split_last_two: "1 < length tops \<Longrightarrow> \<exists>xs l r. tops = xs @ [l, r]"
proof -
  assume a: "1 < length tops"
  then obtain ys r where 1: "tops = ys @ [r]" by (cases tops rule: rev_cases) auto
  with a obtain xs l where "ys = xs @ [l]" by (cases ys rule: rev_cases) auto
  with 1 show ?thesis by simp
qed

lemma merge_step_append: "merge_step (xs @ [l, r]) = insert_top (new_node l r) xs"
  by (simp add: merge_step_def Let_def nth_append)

lemma labelled_new_node: "labelled l \<Longrightarrow> labelled r \<Longrightarrow> labelled (new_node l r)"
  by (simp add: new_node_def)

lemma leaves_new_node [simp]: "leaves (new_node l r) = leaves l @ leaves r"
  by (simp add: new_node_def)

definition forest_leaves :: "'w treenode list \<Rightarrow> 'w pnode multiset" where
  "forest_leaves tops = mset (concat (map leaves tops))"

lemma forest_leaves_insert_top:
  "forest_leaves (insert_top n ts) = mset (leaves n) + forest_leaves ts"
  unfolding forest_leaves_def by (induction ts) (auto simp: ac_simps)

lemma forest_leaves_merge_step:
  "1 < length tops \<Longrightarrow> forest_leaves (merge_step tops) = forest_leaves tops"
proof -
  assume "1 < length tops"
  then obtain xs l r where "tops = xs @ [l, r]" by (blast dest: split_last_two)
  then show ?thesis
    by (simp add: merge_step_append forest_leaves_insert_top) (simp add: forest_leaves_def)
qed

lemma labelled_merge_step:
  "1 < length tops \<Longrightarrow> \<forall>t \<in> set tops. labelled t \<Longrightarrow> \<forall>t \<in> set (merge_step tops). labelled t"
proof -
  assume "1 < length tops" and a: "\<forall>t \<in> set tops. labelled t"
  then obtain xs l r where "tops = xs @ [l, r]" by (blast dest: split_last_two)
  with a show ?thesis
    by (auto simp: merge_step_append labelled_new_node)
qed

lemma build_tree_single:
  "tops \<noteq> [] \<Longrightarrow> \<forall>t \<in> set tops. labelled t \<Longrightarrow>
   \<exists>t. build_tree tops = [t] \<and> labelled t \<and> mset (leaves t) = forest_leaves tops"
proof (induction tops rule: build_tree.induct)
  case (1 tops)
  show ?case
  proof (cases "1 < length tops")
    case True
    then have "merge_step tops \<noteq> []"
      using length_merge_step[of tops] by auto
    with 1 True show ?thesis
      by (subst build_tree.simps) (simp add: labelled_merge_step forest_leaves_merge_step)
  next
    case False
    with "1.prems"(1) obtain t where "tops = [t]"
      by (cases tops) auto
    with "1.prems"(2) show ?thesis
      by (subst build_tree.simps) (simp add: forest_leaves_def)
  qed
qed

lemma forest_leaves_map_Leaf [simp]: "forest_leaves (map Leaf ptable) = mset ptable"
  unfolding forest_leaves_def by (induction ptable) auto

text \<open>The table that \<open>EncHuffman\<close> computes holds the root-to-leaf label paths of the
  tree it built.\<close>

lemma EncHuffman_tree:
  assumes "ptable \<noteq> []" and "distinct (map ch ptable)"
  shows "\<exists>t codes. build_tree (map Leaf ptable) = [t] \<and> labelled t \<and> mset (leaves t) = mset ptable \<and>
             distinct (map ch (leaves t)) \<and>
             EncHuffman ptable = Inr codes \<and> cmap_ok codes \<and> set codes = set (leaf_paths t [])"
proof -
  from assms(1) obtain t where t: "build_tree (map Leaf ptable) = [t]" "labelled t"
      "mset (leaves t) = mset ptable"
    using build_tree_single[of "map Leaf ptable"] by auto
  from t(3) have "mset (map ch (leaves t)) = mset (map ch ptable)"
    by simp
  with assms(2) have d: "distinct (map ch (leaves t))"
    by (metis mset_eq_imp_distinct_iff)
  let ?codes = "fold (\<lambda>(c, w). cmap_set c w) (leaf_paths t []) []"
  have "EncHuffman ptable = Inr ?codes"
    by (simp add: EncHuffman_def t(1) GenerateCode_leaf_paths)
  moreover have "cmap_ok ?codes"
    by (rule cmap_ok_fold_set) (simp add: cmap_ok_def)
  moreover have "set ?codes = set (leaf_paths t [])"
    by (rule set_fold_set) (simp add: fst_leaf_paths d)
  ultimately show ?thesis
    using t d by blast
qed

lemma EncHuffman_empty: "EncHuffman [] = Inl UndefinedBehaviour"
  by (subst EncHuffman_def, subst build_tree.simps) simp

lemma length_tops_trace: "tops \<noteq> [] \<Longrightarrow> length (tops_trace tops) = length tops"
proof (induction tops rule: tops_trace.induct)
  case (1 tops)
  show ?case
  proof (cases "1 < length tops")
    case True
    then have "merge_step tops \<noteq> []"
      using length_merge_step[of tops] by auto
    with 1 True show ?thesis
      by (subst tops_trace.simps) (simp add: length_merge_step)
  next
    case False
    with "1.prems" have "length tops = 1" by (cases tops) auto
    with False show ?thesis
      by (subst tops_trace.simps) simp
  qed
qed

section \<open>The code table\<close>

text \<open>
  C2.  Whatever arrangement \<open>qsort\<close> leaves, a non-empty input \<open>b\<close> gets a code table,
  and any table that \<open>EncHuffman\<close> produces has exactly one entry for each distinct
  byte of \<open>b\<close> and is prefix-free: no symbol's codeword is a prefix, proper or not, of
  another symbol's codeword.
\<close>

theorem code_table_prefix_free:
  assumes "qsort_result (build_ptable fdiv b) ptable"
  shows "(b \<noteq> [] \<longrightarrow> (\<exists>codes. EncHuffman ptable = Inr codes)) \<and>
         (\<forall>codes. EncHuffman ptable = Inr codes \<longrightarrow>
            distinct (map fst codes) \<and> fst ` set codes = set b \<and> prefix_free codes)"
proof (cases "b = []")
  case True
  with assms have "ptable = []"
    using qsort_result_nonempty by blast
  with True show ?thesis
    by (simp add: EncHuffman_empty)
next
  case False
  with assms have "ptable \<noteq> []"
    using qsort_result_nonempty by blast
  then obtain t codes where t: "labelled t" "mset (leaves t) = mset ptable" "distinct (map ch (leaves t))"
      "EncHuffman ptable = Inr codes" "cmap_ok codes" "set codes = set (leaf_paths t [])"
    using EncHuffman_tree[OF _ qsort_result_chars(1)[OF assms]] by blast
  have "prefix_free codes"
    unfolding prefix_free_def t(6) using leaf_paths_prefix_free[OF t(1,3)] by blast
  moreover have "fst ` set codes = set b"
  proof -
    have "fst ` set codes = ch ` set (leaves t)"
      unfolding t(6) using fst_leaf_paths[of t "[]"] by (metis set_map)
    also have "\<dots> = ch ` set ptable"
      using mset_eq_setD[OF t(2)] by simp
    finally show ?thesis
      using qsort_result_chars(2)[OF assms] by simp
  qed
  ultimately show ?thesis
    using t(4,5) by (simp add: cmap_ok_distinct)
qed

theorem code_table_prefix_free_witness:
  "qsort_result (build_ptable float_div ''abacabad'')
     [Pnode (CHR ''a'') (Float32 (1 / 2)), Pnode (CHR ''b'') (Float32 (1 / 4)), Pnode (CHR ''d'') (Float32 (1 / 8)), Pnode (CHR ''c'') (Float32 (1 / 8))] \<and>
   EncHuffman [Pnode (CHR ''a'') (Float32 (1 / 2)), Pnode (CHR ''b'') (Float32 (1 / 4)), Pnode (CHR ''d'') (Float32 (1 / 8)), Pnode (CHR ''c'') (Float32 (1 / 8))]
     = Inr [(CHR ''a'', ''1''), (CHR ''b'', ''01''), (CHR ''c'', ''000''), (CHR ''d'', ''001'')] \<and>
   prefix_free [(CHR ''a'', ''1''), (CHR ''b'', ''01''), (CHR ''c'', ''000''), (CHR ''d'', ''001'')]"
proof -
  let ?pt = "[Pnode (CHR ''a'') (Float32 (1 / 2)), Pnode (CHR ''b'') (Float32 (1 / 4)), Pnode (CHR ''d'') (Float32 (1 / 8)), Pnode (CHR ''c'') (Float32 (1 / 8))]"
  have h: "qsort_result (build_ptable float_div ''abacabad'') ?pt"
    by code_simp
  have e: "EncHuffman ?pt = Inr [(CHR ''a'', ''1''), (CHR ''b'', ''01''), (CHR ''c'', ''000''), (CHR ''d'', ''001'')]"
    by code_simp
  from code_table_prefix_free [OF h] e h show ?thesis
    by blast
qed

text \<open>
  C10.  For an input with \<open>n \<ge> 2\<close> distinct bytes the merge loop runs \<open>n - 1\<close> times
  (its trace has \<open>n\<close> states) and every codeword of the resulting table has at least
  one and at most \<open>n - 1\<close> characters.
\<close>

theorem codeword_length_bounds:
  assumes "qsort_result (build_ptable fdiv b) ptable" and "2 \<le> card (set b)"
  shows "length (tops_trace (map Leaf ptable)) - 1 = card (set b) - 1 \<and>
         (\<exists>codes. EncHuffman ptable = Inr codes \<and>
            (\<forall>(c, w) \<in> set codes. 1 \<le> length w \<and> length w \<le> card (set b) - 1))"
proof -
  have n: "length ptable = card (set b)"
    by (rule qsort_result_chars(3)[OF assms(1)])
  with assms(2) have ne: "ptable \<noteq> []" by auto
  then obtain t codes where t: "mset (leaves t) = mset ptable"
      "EncHuffman ptable = Inr codes" "set codes = set (leaf_paths t [])"
    using EncHuffman_tree[OF _ qsort_result_chars(1)[OF assms(1)]] by blast
  from t(1) have len: "length (leaves t) = card (set b)"
    using n by (metis size_mset)
  have "1 \<le> length w \<and> length w \<le> card (set b) - 1" if m: "(c, w) \<in> set (leaf_paths t [])" for c w
  proof -
    have "length w < card (set b)"
      using leaf_paths_extend[OF m] len by auto
    moreover have "w \<noteq> []"
    proof (cases t)
      case (Leaf e)
      with len assms(2) show ?thesis by simp
    next
      case (Inner x lc rc l r)
      with m show ?thesis using leaf_paths_Inner_nonempty[of c w x lc rc l r "[]"] by auto
    qed
    ultimately show ?thesis by (cases w) auto
  qed
  with t(2,3) show ?thesis
    using length_tops_trace[of "map Leaf ptable"] ne n by auto
qed

theorem codeword_length_bounds_witness:
  "qsort_result (build_ptable float_div ''aaaabbcd'')
     [Pnode (CHR ''a'') (Float32 (1 / 2)), Pnode (CHR ''b'') (Float32 (1 / 4)),
      Pnode (CHR ''c'') (Float32 (1 / 8)), Pnode (CHR ''d'') (Float32 (1 / 8))] \<and>
   2 \<le> card (set ''aaaabbcd'') \<and>
   (\<exists>codes. EncHuffman [Pnode (CHR ''a'') (Float32 (1 / 2)), Pnode (CHR ''b'') (Float32 (1 / 4)),
      Pnode (CHR ''c'') (Float32 (1 / 8)), Pnode (CHR ''d'') (Float32 (1 / 8))] = Inr codes \<and>
      (\<forall>(c, w) \<in> set codes. 1 \<le> length w \<and> length w \<le> card (set ''aaaabbcd'') - 1))"
proof -
  have h1: "qsort_result (build_ptable float_div ''aaaabbcd'')
     [Pnode (CHR ''a'') (Float32 (1 / 2)), Pnode (CHR ''b'') (Float32 (1 / 4)),
      Pnode (CHR ''c'') (Float32 (1 / 8)), Pnode (CHR ''d'') (Float32 (1 / 8))]"
    by code_simp
  have h2: "2 \<le> card (set ''aaaabbcd'')"
    by code_simp
  from codeword_length_bounds [OF h1 h2] h1 h2 show ?thesis
    by blast
qed

text \<open>
  C5.  On the empty input the table of probabilities is empty, the merge loop does not
  run, and \<open>EncHuffman\<close> reads \<open>tops[0]\<close> of an empty vector: no table and no stream
  are produced.
\<close>

theorem empty_input_is_undefined:
  "build_ptable fdiv [] = ([] :: 'w::{plus,linorder} pnode list) \<and>
   qsort_result ([] :: 'w pnode list) [] \<and>
   EncHuffman ([] :: 'w pnode list) = Inl UndefinedBehaviour \<and>
   Encode ([] :: 'w pnode list) [] = Inl UndefinedBehaviour"
  by (simp add: Encode_def EncHuffman_empty qsort_result_def build_ptable_def)

text \<open>
  C4.  On the input \<open>aaaa\<close> the table has the single entry \<open>a\<close> with the empty
  codeword, the encoded text is empty, and decoding it gives the empty output.
\<close>

theorem single_symbol_gets_empty_codeword:
  "build_ptable float_div ''aaaa'' = [Pnode (CHR ''a'') (Float32 1)] \<and>
   qsort_result [Pnode (CHR ''a'') (Float32 1)] [Pnode (CHR ''a'') (Float32 1)] \<and>
   Encode [Pnode (CHR ''a'') (Float32 1)] ''aaaa'' = Inr ([(CHR ''a'', [])], []) \<and>
   Decode [(CHR ''a'', [])] [] = Inr []"
  by code_simp

section \<open>Facts about the decoder\<close>

text \<open>What the decoder needs of a table: one entry per symbol, prefix-free, and every
  codeword a non-empty string of the characters \<open>0\<close> and \<open>1\<close>.\<close>

definition decodable :: "string cmap \<Rightarrow> bool" where
  "decodable codes \<longleftrightarrow>
     distinct (map fst codes) \<and> prefix_free codes \<and> (\<forall>(c, w) \<in> set codes. w \<noteq> [] \<and> bits w)"

lemma c_str_bits: "bits w \<Longrightarrow> c_str w = w"
  unfolding bits_def c_str_def by (auto simp: takeWhile_eq_all_conv)

lemma bits_append [simp]: "bits (u @ v) \<longleftrightarrow> bits u \<and> bits v"
  by (auto simp: bits_def)

lemma scan_codes_append:
  "scan_codes (xs @ ys) st = scan_codes ys (scan_codes xs st)"
proof (induction xs arbitrary: st)
  case Nil
  then show ?case by (cases st) simp
next
  case (Cons e xs)
  obtain k w where e: "e = (k, w)" by (cases e)
  obtain accum out where st: "st = (accum, out)" by (cases st)
  show ?case unfolding e st by (simp add: Cons.IH)
qed

lemma scan_codes_no_match:
  "\<forall>(k, w) \<in> set codes. c_str w \<noteq> c_str accum \<Longrightarrow> scan_codes codes (accum, out) = (accum, out)"
  by (induction codes) auto

lemma scan_codes_match:
  assumes "decodable codes" and "(c, w) \<in> set codes"
  shows "scan_codes codes (w, out) = ([], out @ [c])"
proof -
  from assms(2) obtain xs ys where split: "codes = xs @ (c, w) # ys"
    by (auto dest: split_list)
  have w: "w \<noteq> []" "bits w"
    using assms by (auto simp: decodable_def)
  have other: "u \<noteq> w" if "(k, u) \<in> set xs" for k u
  proof
    assume "u = w"
    with that assms(1) split have "k \<noteq> c" "(k, w) \<in> set codes"
      by (auto simp: decodable_def rev_image_eqI)
    with assms show False
      by (auto simp: decodable_def prefix_free_def)
  qed
  have "\<forall>(k, u) \<in> set xs. c_str u \<noteq> c_str w"
  proof (clarify)
    fix k u assume m: "(k, u) \<in> set xs" and eq: "c_str u = c_str w"
    from m split assms(1) have "bits u" by (auto simp: decodable_def)
    with eq w(2) other[OF m] show False by (simp add: c_str_bits)
  qed
  then have 1: "scan_codes xs (w, out) = (w, out)"
    by (rule scan_codes_no_match)
  have "\<forall>(k, u) \<in> set ys. c_str u \<noteq> c_str []"
  proof (clarify)
    fix k u assume m: "(k, u) \<in> set ys" and eq: "c_str u = c_str []"
    from m split assms(1) have "bits u" "u \<noteq> []" by (auto simp: decodable_def)
    with eq show False by (simp add: c_str_bits) (simp add: c_str_def)
  qed
  then have 2: "scan_codes ys ([], out @ [c]) = ([], out @ [c])"
    by (rule scan_codes_no_match)
  show ?thesis
    unfolding split scan_codes_append 1 by (simp add: 2)
qed

lemma scan_codes_inside:
  assumes "decodable codes" and "(c, w) \<in> set codes" and "strict_prefix accum w"
  shows "scan_codes codes (accum, out) = (accum, out)"
proof (rule scan_codes_no_match, clarify)
  fix k u assume m: "(k, u) \<in> set codes" and eq: "c_str u = c_str accum"
  from assms have "bits w" by (auto simp: decodable_def)
  with assms(3) have "bits accum" by (auto simp: strict_prefix_def prefix_def)
  moreover from m assms(1) have "bits u" by (auto simp: decodable_def)
  ultimately have u: "u = accum" using eq by (simp add: c_str_bits)
  with assms(3) have p: "prefix u w" "u \<noteq> w" by (auto simp: strict_prefix_def)
  with m assms(1,2) have "k = c"
    unfolding decodable_def prefix_free_def by blast
  with m assms(1,2) have "u = w"
    by (auto simp: decodable_def dest: eq_key_imp_eq_value)
  with p show False by simp
qed

lemma bit_not_eof: "bits (x # w) \<Longrightarrow> x \<noteq> CHR 0xFF"
  by (auto simp: bits_def)

lemma decode_loop_codeword:
  assumes "decodable codes" and "(c, w) \<in> set codes"
  shows "w = accum @ w' \<Longrightarrow> w' \<noteq> [] \<Longrightarrow>
         decode_loop codes (w' @ rest) (accum, out) = decode_loop codes rest ([], out @ [c])"
proof (induction w' arbitrary: accum)
  case Nil
  then show ?case by simp
next
  case (Cons x w'')
  from assms have "bits w" by (auto simp: decodable_def)
  with Cons.prems(1) have x: "x \<noteq> CHR 0xFF" by (auto dest: bit_not_eof)
  show ?case
  proof (cases "w'' = []")
    case True
    with Cons.prems(1) have "accum @ [x] = w" by simp
    then show ?thesis
      using x True scan_codes_match[OF assms, of out] by simp
  next
    case False
    with Cons.prems(1) have "strict_prefix (accum @ [x]) w"
      by (auto simp: strict_prefix_def)
    then have "scan_codes codes (accum @ [x], out) = (accum @ [x], out)"
      by (rule scan_codes_inside[OF assms])
    then show ?thesis
      using x False Cons.IH[of "accum @ [x]"] Cons.prems(1) by simp
  qed
qed

lemma decode_loop_partial:
  assumes "decodable codes" and "(c, w) \<in> set codes"
  shows "strict_prefix (accum @ r) w \<Longrightarrow> decode_loop codes r (accum, out) = (accum @ r, out)"
proof (induction r arbitrary: accum)
  case Nil
  then show ?case by simp
next
  case (Cons x r)
  from assms have "bits w" by (auto simp: decodable_def)
  with Cons.prems have x: "x \<noteq> CHR 0xFF"
    by (auto simp: strict_prefix_def prefix_def dest: bit_not_eof)
  from Cons.prems have "strict_prefix (accum @ [x]) w"
    by (auto simp: strict_prefix_def prefix_def)
  then have "scan_codes codes (accum @ [x], out) = (accum @ [x], out)"
    by (rule scan_codes_inside[OF assms])
  then show ?case
    using x Cons.IH[of "accum @ [x]"] Cons.prems by simp
qed

lemma output_text_known:
  "distinct (map fst codes) \<Longrightarrow> (c, w) \<in> set codes \<Longrightarrow>
   output_text codes (c # cs) = w @ output_text codes cs"
  by simp

lemma decode_loop_output_text:
  assumes "decodable codes"
  shows "set xs \<subseteq> fst ` set codes \<Longrightarrow>
         decode_loop codes (output_text codes xs @ rest) ([], out) = decode_loop codes rest ([], out @ xs)"
proof (induction xs arbitrary: out)
  case Nil
  then show ?case by simp
next
  case (Cons c cs)
  then obtain w where w: "(c, w) \<in> set codes" by auto
  with assms have d: "distinct (map fst codes)" and ne: "w \<noteq> []"
    by (auto simp: decodable_def)
  have "decode_loop codes (output_text codes (c # cs) @ rest) ([], out)
        = decode_loop codes (w @ (output_text codes cs @ rest)) ([], out)"
    unfolding output_text_known[OF d w] by simp
  also have "\<dots> = decode_loop codes (output_text codes cs @ rest) ([], out @ [c])"
    using decode_loop_codeword[OF assms w, of "[]" w] ne by simp
  also have "\<dots> = decode_loop codes rest ([], (out @ [c]) @ cs)"
    using Cons by simp
  finally show ?case by simp
qed

lemma output_text_concat:
  "output_text codes b = concat (map (\<lambda>c. case map_of codes c of None \<Rightarrow> [] | Some w \<Rightarrow> w) b)"
proof (induction b arbitrary: codes)
  case Nil
  then show ?case by simp
next
  case (Cons c cs)
  show ?case
  proof (cases "map_of codes c")
    case None
    have "(case map_of (cmap_set c [] codes) x of None \<Rightarrow> [] | Some w \<Rightarrow> w)
          = (case map_of codes x of None \<Rightarrow> [] | Some w \<Rightarrow> w)" for x
      using None by (simp add: map_of_cmap_set del: fun_upd_apply) (simp add: fun_upd_def)
    with None Cons[of "cmap_set c [] codes"] show ?thesis by simp
  next
    case (Some w)
    with Cons[of codes] show ?thesis by simp
  qed
qed

lemma output_text_append: "output_text codes (ys @ zs) = output_text codes ys @ output_text codes zs"
  by (simp add: output_text_concat)

lemma prefix_output_text:
  assumes "decodable codes"
  shows "set xs \<subseteq> fst ` set codes \<Longrightarrow> prefix s (output_text codes xs) \<Longrightarrow>
    (\<exists>ys. prefix ys xs \<and> s = output_text codes ys) \<or>
    (\<exists>ys c zs w r. xs = ys @ c # zs \<and> (c, w) \<in> set codes \<and> r \<noteq> [] \<and> strict_prefix r w \<and>
        s = output_text codes ys @ r)"
proof (induction xs arbitrary: s)
  case Nil
  then show ?case by simp
next
  case (Cons c cs)
  then obtain w where w: "(c, w) \<in> set codes" by auto
  with assms have d: "distinct (map fst codes)"
    by (auto simp: decodable_def)
  have out: "output_text codes (c # us) = w @ output_text codes us" for us
    by (rule output_text_known[OF d w])
  from Cons.prems(2) consider "s = []" | "s \<noteq> []" "strict_prefix s w"
    | s' where "s = w @ s'" "prefix s' (output_text codes cs)"
    unfolding out prefix_append strict_prefix_def by (cases "s = w") auto
  then show ?case
  proof cases
    case 1
    then have "prefix [] (c # cs) \<and> s = output_text codes []" by simp
    then show ?thesis by blast
  next
    case 2
    with w have "c # cs = [] @ c # cs \<and> (c, w) \<in> set codes \<and> s \<noteq> [] \<and> strict_prefix s w \<and>
        s = output_text codes [] @ s" by simp
    then show ?thesis by blast
  next
    case 3
    from Cons.prems(1) have sub: "set cs \<subseteq> fst ` set codes" by simp
    from Cons.IH[OF sub 3(2)] show ?thesis
    proof (elim disjE exE conjE)
      fix ys assume "prefix ys cs" "s' = output_text codes ys"
      with 3(1) have "prefix (c # ys) (c # cs) \<and> s = output_text codes (c # ys)"
        by (simp add: out del: output_text.simps(2))
      then show ?thesis by blast
    next
      fix ys c' zs w' r
      assume "cs = ys @ c' # zs" "(c', w') \<in> set codes" "r \<noteq> []" "strict_prefix r w'"
        "s' = output_text codes ys @ r"
      with 3(1) have "c # cs = (c # ys) @ c' # zs \<and> (c', w') \<in> set codes \<and> r \<noteq> [] \<and>
          strict_prefix r w' \<and> s = output_text codes (c # ys) @ r"
        by (simp add: out del: output_text.simps(2))
      then show ?thesis by blast
    qed
  qed
qed

text \<open>With at least two symbols the table of \<open>EncHuffman\<close> is one the decoder can use.\<close>

lemma EncHuffman_decodable:
  assumes "qsort_result (build_ptable fdiv b) ptable" and "2 \<le> card (set b)"
  shows "\<exists>codes. EncHuffman ptable = Inr codes \<and> decodable codes \<and> fst ` set codes = set b"
proof -
  have n: "length ptable = card (set b)"
    by (rule qsort_result_chars(3)[OF assms(1)])
  with assms(2) have ne: "ptable \<noteq> []" by auto
  then obtain t codes where t: "labelled t" "mset (leaves t) = mset ptable" "distinct (map ch (leaves t))"
      "EncHuffman ptable = Inr codes" "cmap_ok codes" "set codes = set (leaf_paths t [])"
    using EncHuffman_tree[OF _ qsort_result_chars(1)[OF assms(1)]] by blast
  from t(2) have len: "length (leaves t) = card (set b)"
    using n by (metis size_mset)
  have pf: "prefix_free codes"
    unfolding prefix_free_def t(6) using leaf_paths_prefix_free[OF t(1,3)] by blast
  have "w \<noteq> [] \<and> bits w" if m: "(c, w) \<in> set (leaf_paths t [])" for c w
  proof -
    have "w \<noteq> []"
    proof (cases t)
      case (Leaf e)
      with len assms(2) show ?thesis by simp
    next
      case (Inner x lc rc l r)
      with m show ?thesis using leaf_paths_Inner_nonempty[of c w x lc rc l r "[]"] by auto
    qed
    moreover have "bits w"
      using leaf_paths_bits[OF t(1) m] by (auto simp: bits_def)
    ultimately show ?thesis by simp
  qed
  then have "\<forall>(c, w) \<in> set codes. w \<noteq> [] \<and> bits w"
    unfolding t(6) by blast
  moreover have "fst ` set codes = set b"
  proof -
    have "fst ` set codes = ch ` set (leaves t)"
      unfolding t(6) using fst_leaf_paths[of t "[]"] by (metis set_map)
    also have "\<dots> = ch ` set ptable"
      using mset_eq_setD[OF t(2)] by simp
    finally show ?thesis
      using qsort_result_chars(2)[OF assms(1)] by simp
  qed
  ultimately show ?thesis
    using t(4,5) pf by (auto simp: decodable_def cmap_ok_distinct)
qed

text \<open>With a single symbol the table holds the empty codeword and every text is empty.\<close>

lemma EncHuffman_single:
  assumes "qsort_result (build_ptable fdiv b) ptable" and "card (set b) = 1"
  shows "\<exists>c. EncHuffman ptable = Inr [(c, [])] \<and> set b = {c}"
proof -
  have "length ptable = 1"
    using qsort_result_chars(3)[OF assms(1)] assms(2) by simp
  then obtain e where e: "ptable = [e]"
    by (cases ptable) auto
  have "EncHuffman [e] = Inr [(ch e, [])]"
    by (subst EncHuffman_def, subst build_tree.simps) (simp add: pop_sequence_def)
  with e show ?thesis
    using qsort_result_chars(2)[OF assms(1)] by auto
qed

text \<open>
  Round trip.  For an input with at least two distinct bytes, whatever arrangement
  \<open>qsort\<close> leaves, decoding the encoded text under the table gives back the input.
\<close>

theorem round_trip_two_symbols:
  assumes "qsort_result (build_ptable fdiv b) ptable" and "2 \<le> card (set b)"
  shows "\<exists>codes text. Encode ptable b = Inr (codes, text) \<and> Decode codes text = Inr b"
proof -
  from EncHuffman_decodable[OF assms] obtain codes where
    c: "EncHuffman ptable = Inr codes" "decodable codes" "fst ` set codes = set b"
    by blast
  have "decode_loop codes (output_text codes b @ []) ([], []) = decode_loop codes [] ([], [] @ b)"
    by (rule decode_loop_output_text[OF c(2)]) (simp add: c(3))
  then have "Decode codes (output_text codes b) = Inr b"
    by (simp add: Decode_def)
  with c(1) show ?thesis
    by (simp add: Encode_def)
qed

theorem round_trip_two_symbols_witness:
  "qsort_result (build_ptable float_div ''abacabad'')
     [Pnode (CHR ''a'') (Float32 (1 / 2)), Pnode (CHR ''b'') (Float32 (1 / 4)),
      Pnode (CHR ''d'') (Float32 (1 / 8)), Pnode (CHR ''c'') (Float32 (1 / 8))] \<and>
   2 \<le> card (set ''abacabad'') \<and>
   (\<exists>codes text.
      Encode [Pnode (CHR ''a'') (Float32 (1 / 2)), Pnode (CHR ''b'') (Float32 (1 / 4)),
              Pnode (CHR ''d'') (Float32 (1 / 8)), Pnode (CHR ''c'') (Float32 (1 / 8))] ''abacabad''
        = Inr (codes, text) \<and>
      Decode codes text = Inr ''abacabad'')"
proof -
  have h1: "qsort_result (build_ptable float_div ''abacabad'')
     [Pnode (CHR ''a'') (Float32 (1 / 2)), Pnode (CHR ''b'') (Float32 (1 / 4)),
      Pnode (CHR ''d'') (Float32 (1 / 8)), Pnode (CHR ''c'') (Float32 (1 / 8))]"
    by code_simp
  have h2: "2 \<le> card (set ''abacabad'')"
    by code_simp
  from round_trip_two_symbols [OF h1 h2] h1 h2 show ?thesis
    by blast
qed

text \<open>
  C1.  On the input \<open>zzz\<close>, with its single distinct byte, the table maps \<open>z\<close> to the
  empty codeword, the encoded text is empty and the decoder returns the empty
  output: the round trip does not give back the input.
\<close>

theorem round_trip_fails_on_single_symbol:
  "build_ptable float_div ''zzz'' = [Pnode (CHR ''z'') (Float32 1)] \<and>
   qsort_result [Pnode (CHR ''z'') (Float32 1)] [Pnode (CHR ''z'') (Float32 1)] \<and>
   Encode [Pnode (CHR ''z'') (Float32 1)] ''zzz'' = Inr ([(CHR ''z'', [])], []) \<and>
   Decode [(CHR ''z'', [])] [] = Inr [] \<and>
   Decode [(CHR ''z'', [])] [] \<noteq> Inr ''zzz''"
  by code_simp

text \<open>
  C6, as stated, fails: under the table of the input \<open>abacabad\<close> the text of \<open>ab\<close> is
  \<open>101\<close>; its prefix \<open>10\<close> ends inside the codeword of \<open>b\<close>, and the decoder returns
  the output \<open>a\<close> without any error.
\<close>

theorem truncated_stream_not_reported:
  "qsort_result (build_ptable float_div ''abacabad'')
     [Pnode (CHR ''a'') (Float32 (1 / 2)), Pnode (CHR ''b'') (Float32 (1 / 4)), Pnode (CHR ''d'') (Float32 (1 / 8)), Pnode (CHR ''c'') (Float32 (1 / 8))] \<and>
   EncHuffman [Pnode (CHR ''a'') (Float32 (1 / 2)), Pnode (CHR ''b'') (Float32 (1 / 4)), Pnode (CHR ''d'') (Float32 (1 / 8)), Pnode (CHR ''c'') (Float32 (1 / 8))]
     = Inr [(CHR ''a'', ''1''), (CHR ''b'', ''01''), (CHR ''c'', ''000''), (CHR ''d'', ''001'')] \<and>
   output_text [(CHR ''a'', ''1''), (CHR ''b'', ''01''), (CHR ''c'', ''000''), (CHR ''d'', ''001'')] ''ab'' = ''101'' \<and>
   Decode [(CHR ''a'', ''1''), (CHR ''b'', ''01''), (CHR ''c'', ''000''), (CHR ''d'', ''001'')] ''10'' = Inr ''a'' \<and>
   Decode [(CHR ''a'', ''1''), (CHR ''b'', ''01''), (CHR ''c'', ''000''), (CHR ''d'', ''001'')] ''10''
     \<noteq> Inl TruncatedStream"
  by code_simp

text \<open>
  C6, amended.  Let \<open>codes\<close> be the table of the input \<open>b\<close> and \<open>xs\<close> any sequence of
  bytes of \<open>b\<close>.  Decoding a strict prefix \<open>stream\<close> of the text of \<open>xs\<close> that does not
  end at a codeword boundary never fails.  The stream is the text of a strict prefix
  \<open>ys\<close> of \<open>xs\<close> followed by a non-empty strict prefix \<open>r\<close> of the codeword of the next
  byte \<open>c\<close> of \<open>xs\<close>; the decoder returns, as a success, exactly \<open>ys\<close>, the symbols of
  all the whole codewords in the stream, and drops only the partial codeword \<open>r\<close>.
\<close>

theorem truncated_stream_decodes_to_prefix:
  assumes "qsort_result (build_ptable fdiv b) ptable"
    and "EncHuffman ptable = Inr codes"
    and "set xs \<subseteq> set b"
    and "strict_prefix stream (output_text codes xs)"
    and "\<forall>ys. prefix ys xs \<longrightarrow> stream \<noteq> output_text codes ys"
  shows "\<exists>ys c zs w r.
           xs = ys @ c # zs \<and> map_of codes c = Some w \<and> r \<noteq> [] \<and> strict_prefix r w \<and>
           stream = output_text codes ys @ r \<and>
           strict_prefix ys xs \<and> strict_prefix (output_text codes ys) stream \<and>
           Decode codes stream = Inr ys \<and>
           Decode codes stream \<noteq> Inl TruncatedStream"
proof -
  have "b \<noteq> []"
    using assms(1,2) qsort_result_nonempty[OF assms(1)] by (auto simp: EncHuffman_empty)
  then have "0 < card (set b)"
    by (simp add: card_gt_0_iff)
  then have "card (set b) = 1 \<or> 2 \<le> card (set b)"
    by linarith
  then show ?thesis
  proof
    assume "card (set b) = 1"
    from EncHuffman_single[OF assms(1) this] assms(2) obtain c where "codes = [(c, [])]" "set b = {c}"
      by auto
    with assms(3) have "output_text codes xs = []"
      by (auto simp: output_text_concat)
    with assms(4) show ?thesis by simp
  next
    assume "2 \<le> card (set b)"
    from EncHuffman_decodable[OF assms(1) this] assms(2)
    have dec: "decodable codes" and keys: "fst ` set codes = set b"
      by auto
    from dec have dist: "distinct (map fst codes)"
      by (simp add: decodable_def)
    from assms(3) keys have sub: "set xs \<subseteq> fst ` set codes" by simp
    from assms(4) have "prefix stream (output_text codes xs)"
      by (simp add: strict_prefix_def)
    from prefix_output_text[OF dec sub this] assms(5)
    obtain ys c zs w r where d: "xs = ys @ c # zs" "(c, w) \<in> set codes" "r \<noteq> []" "strict_prefix r w"
        "stream = output_text codes ys @ r"
      by blast
    from d(1) sub have ysub: "set ys \<subseteq> fst ` set codes" by simp
    have "decode_loop codes stream ([], []) = decode_loop codes r ([], [] @ ys)"
      unfolding d(5) by (rule decode_loop_output_text[OF dec ysub])
    also have "\<dots> = ([] @ r, ys)"
      using decode_loop_partial[OF dec d(2), of "[]" r ys] d(4) by simp
    finally have res: "Decode codes stream = Inr ys"
      by (simp add: Decode_def)
    then have ok: "Decode codes stream \<noteq> Inl TruncatedStream"
      by simp
    from d(2) dist have look: "map_of codes c = Some w"
      by simp
    from d(1) have p1: "strict_prefix ys xs"
      by (simp add: strict_prefix_def)
    from d(3,5) have p2: "strict_prefix (output_text codes ys) stream"
      by (simp add: strict_prefix_def)
    from d(1) look d(3,4,5) p1 p2 res ok show ?thesis
      by blast
  qed
qed

theorem truncated_stream_decodes_to_prefix_witness:
  "qsort_result (build_ptable float_div ''abacabad'')
     [Pnode (CHR ''a'') (Float32 (1 / 2)), Pnode (CHR ''b'') (Float32 (1 / 4)),
      Pnode (CHR ''d'') (Float32 (1 / 8)), Pnode (CHR ''c'') (Float32 (1 / 8))] \<and>
   EncHuffman [Pnode (CHR ''a'') (Float32 (1 / 2)), Pnode (CHR ''b'') (Float32 (1 / 4)),
               Pnode (CHR ''d'') (Float32 (1 / 8)), Pnode (CHR ''c'') (Float32 (1 / 8))]
     = Inr [(CHR ''a'', ''1''), (CHR ''b'', ''01''), (CHR ''c'', ''000''), (CHR ''d'', ''001'')] \<and>
   set ''abc'' \<subseteq> set ''abacabad'' \<and>
   strict_prefix ''10100''
     (output_text [(CHR ''a'', ''1''), (CHR ''b'', ''01''), (CHR ''c'', ''000''), (CHR ''d'', ''001'')] ''abc'') \<and>
   ''10100'' \<notin> set (map (output_text [(CHR ''a'', ''1''), (CHR ''b'', ''01''), (CHR ''c'', ''000''), (CHR ''d'', ''001'')])
                          (prefixes ''abc'')) \<and>
   (\<exists>ys c zs w r.
      ''abc'' = ys @ c # zs \<and>
      map_of [(CHR ''a'', ''1''), (CHR ''b'', ''01''), (CHR ''c'', ''000''), (CHR ''d'', ''001'')] c = Some w \<and>
      r \<noteq> [] \<and> strict_prefix r w \<and>
      ''10100'' = output_text [(CHR ''a'', ''1''), (CHR ''b'', ''01''), (CHR ''c'', ''000''), (CHR ''d'', ''001'')] ys @ r \<and>
      strict_prefix ys ''abc'' \<and>
      strict_prefix (output_text [(CHR ''a'', ''1''), (CHR ''b'', ''01''), (CHR ''c'', ''000''), (CHR ''d'', ''001'')] ys) ''10100'' \<and>
      Decode [(CHR ''a'', ''1''), (CHR ''b'', ''01''), (CHR ''c'', ''000''), (CHR ''d'', ''001'')] ''10100'' = Inr ys \<and>
      Decode [(CHR ''a'', ''1''), (CHR ''b'', ''01''), (CHR ''c'', ''000''), (CHR ''d'', ''001'')] ''10100''
        \<noteq> Inl TruncatedStream) \<and>
   Decode [(CHR ''a'', ''1''), (CHR ''b'', ''01''), (CHR ''c'', ''000''), (CHR ''d'', ''001'')] ''10100'' = Inr ''ab'' \<and>
   ''10100'' = output_text [(CHR ''a'', ''1''), (CHR ''b'', ''01''), (CHR ''c'', ''000''), (CHR ''d'', ''001'')] ''ab'' @ ''00''"
proof -
  let ?codes = "[(CHR ''a'', ''1''), (CHR ''b'', ''01''), (CHR ''c'', ''000''), (CHR ''d'', ''001'')]"
  have h1: "qsort_result (build_ptable float_div ''abacabad'')
     [Pnode (CHR ''a'') (Float32 (1 / 2)), Pnode (CHR ''b'') (Float32 (1 / 4)),
      Pnode (CHR ''d'') (Float32 (1 / 8)), Pnode (CHR ''c'') (Float32 (1 / 8))]"
    by code_simp
  have h2: "EncHuffman [Pnode (CHR ''a'') (Float32 (1 / 2)), Pnode (CHR ''b'') (Float32 (1 / 4)),
                        Pnode (CHR ''d'') (Float32 (1 / 8)), Pnode (CHR ''c'') (Float32 (1 / 8))]
     = Inr ?codes"
    by code_simp
  have h3: "set ''abc'' \<subseteq> set ''abacabad''"
    by simp
  have h4: "strict_prefix ''10100'' (output_text ?codes ''abc'')"
    by (simp add: strict_prefix_def)
  have h5: "\<forall>ys. prefix ys ''abc'' \<longrightarrow> ''10100'' \<noteq> output_text ?codes ys"
  proof (intro allI impI)
    fix ys :: string assume "prefix ys ''abc''"
    then have "ys \<in> set (prefixes ''abc'')" by (simp only: in_set_prefixes)
    then show "''10100'' \<noteq> output_text ?codes ys" by auto
  qed
  have h6: "''10100'' \<notin> set (map (output_text ?codes) (prefixes ''abc''))"
    by simp
  have h7: "Decode ?codes ''10100'' = Inr ''ab''"
    by code_simp
  have h8: "''10100'' = output_text ?codes ''ab'' @ ''00''"
    by code_simp
  note concl = truncated_stream_decodes_to_prefix [OF h1 h2 h3 h4 h5]
  from h1 h2 h3 h4 h6 concl h7 h8 show ?thesis
    by (intro conjI)
qed

text \<open>
  C9, as stated, fails: with a table for \<open>a\<close> and \<open>b\<close> only, the text written for
  \<open>abc\<close> is the text of \<open>ab\<close>; the byte \<open>c\<close>, absent from the table, adds nothing and
  no error is reported.
\<close>

theorem unknown_symbol_not_reported:
  "Encode [Pnode (CHR ''a'') (Float32 (1 / 2)), Pnode (CHR ''b'') (Float32 (1 / 2))] ''abc''
     = Inr ([(CHR ''a'', ''1''), (CHR ''b'', ''0'')], ''10'') \<and>
   map_of [(CHR ''a'', ''1''), (CHR ''b'', ''0'')] (CHR ''c'') = None \<and>
   Encode [Pnode (CHR ''a'') (Float32 (1 / 2)), Pnode (CHR ''b'') (Float32 (1 / 2))] ''abc'' \<noteq> Inl UnknownSymbol"
  by code_simp

text \<open>
  C9, amended.  Encoding never fails with \<open>UnknownSymbol\<close>: for every table and
  every byte sequence the text written is the concatenation, in order, of the
  codewords of the bytes that have an entry; a byte without an entry adds nothing.
\<close>

theorem encode_skips_unknown_symbols:
  "Encode ptable b \<noteq> Inl UnknownSymbol \<and>
   output_text codes b = concat (map (\<lambda>c. case map_of codes c of None \<Rightarrow> [] | Some w \<Rightarrow> w) b) \<and>
   output_text codes b = output_text codes (filter (\<lambda>c. c \<in> fst ` set codes) b)"
proof -
  have "Encode ptable b \<noteq> Inl UnknownSymbol"
    by (simp add: Encode_def EncHuffman_def split: sum.splits list.splits)
  moreover have "concat (map (\<lambda>c. case map_of codes c of None \<Rightarrow> [] | Some w \<Rightarrow> w) b)
      = concat (map (\<lambda>c. case map_of codes c of None \<Rightarrow> [] | Some w \<Rightarrow> w) (filter (\<lambda>c. c \<in> fst ` set codes) b))"
  proof (induction b)
    case Nil
    then show ?case by simp
  next
    case (Cons a b)
    have "map_of codes a = None" if "a \<notin> fst ` set codes"
      using that by (simp add: map_of_eq_None_iff)
    with Cons show ?case by auto
  qed
  ultimately show ?thesis
    by (simp add: output_text_concat)
qed

section \<open>Cost of a tree\<close>



fun wts :: "rat treenode \<Rightarrow> rat multiset" where
  "wts (Leaf e) = {#p e#}"
| "wts (Inner w lc rc l r) = wts l + wts r"




lemma wts_nonempty [simp]: "wts t \<noteq> {#}"
  by (induction t) auto









section \<open>The merge loop builds a tree of least cost\<close>








section \<open>Cost of a code table\<close>










section \<open>Every binary prefix code is matched by a tree\<close>








section \<open>Rounding and optimality\<close>










section \<open>Optimality with exact weights\<close>




end
